theory Spec2Isabelle
  imports Main "HOL-Library.Word"
begin

section \<open>The Telnet protocol filter of BetterTelnet (main.go)\<close>

subsection \<open>Bytes, protocol constants, errors\<close>

type_synonym byte = "8 word"

text \<open>The Telnet protocol constants of main.go.\<close>

abbreviation IAC :: byte where "IAC \<equiv> 255"
abbreviation DONT :: byte where "DONT \<equiv> 254"
abbreviation DO :: byte where "DO \<equiv> 253"
abbreviation WONT :: byte where "WONT \<equiv> 252"
abbreviation WILL :: byte where "WILL \<equiv> 251"
abbreviation SB :: byte where "SB \<equiv> 250"
abbreviation SE :: byte where "SE \<equiv> 240"

text \<open>Go error values that reach the filter: \<open>io.EOF\<close>, \<open>io.ErrNoProgress\<close> (raised by
  bufio itself) and any other failure of the connection, kept by its message.\<close>

datatype error = EOF | ErrNoProgress | NetError string

subsection \<open>The connection under the reader\<close>

text \<open>
  The reader is built over the TCP connection, seen through \<open>io.Reader\<close>. One call of the
  connection's \<open>Read\<close> returns some bytes and possibly an error. A connection is the list
  of results its coming \<open>Read\<close> calls will return, in order; when the list is used up the
  next call blocks for ever, which the model writes as \<open>None\<close>. The bytes written to the
  connection are kept beside it, so that a reply of the filter would be visible.
\<close>

type_synonym read_result = "byte list \<times> error option"

record conn =
  incoming :: "read_result list"
  outgoing :: "byte list"

definition conn_Read :: "conn \<Rightarrow> (read_result \<times> conn) option" where
  "conn_Read c = (case incoming c of
       [] \<Rightarrow> None
     | r # rs \<Rightarrow> Some (r, c\<lparr>incoming := rs\<rparr>))"

subsection \<open>bufio.Reader, as far as the filter uses it\<close>

text \<open>
  \<open>buf\<close> is the unread part \<open>b.buf[b.r:b.w]\<close> of the buffer, \<open>err\<close> the error kept for
  later (\<open>b.err\<close>), \<open>rd\<close> the reader underneath. \<open>ReadByte\<close> fills the buffer only when it
  is empty, so each read of the connection gets the whole buffer (4096 bytes) to write
  into; nothing below depends on that size.
\<close>

record bufio_Reader =
  buf :: "byte list"
  err :: "error option"
  rd :: conn

definition Buffered :: "bufio_Reader \<Rightarrow> nat" where
  "Buffered b = length (buf b)"

definition maxConsecutiveEmptyReads :: nat where
  "maxConsecutiveEmptyReads = 100"

text \<open>
  The loop of \<open>fill\<close>: read new data, trying a limited number of times. An error is kept
  in \<open>b.err\<close> together with the bytes that came with it; a read that brings bytes ends
  the loop; after \<open>maxConsecutiveEmptyReads\<close> empty reads the error is \<open>io.ErrNoProgress\<close>.
\<close>

fun fill_loop :: "nat \<Rightarrow> bufio_Reader \<Rightarrow> bufio_Reader option" where
  "fill_loop 0 b = Some (b\<lparr>err := Some ErrNoProgress\<rparr>)"
| "fill_loop (Suc i) b =
     (case conn_Read (rd b) of
        None \<Rightarrow> None
      | Some ((bs, e), c) \<Rightarrow>
          (let b' = b\<lparr>buf := buf b @ bs, rd := c\<rparr> in
           case e of
             Some x \<Rightarrow> Some (b'\<lparr>err := Some x\<rparr>)
           | None \<Rightarrow> if bs \<noteq> [] then Some b' else fill_loop i b'))"

definition fill :: "bufio_Reader \<Rightarrow> bufio_Reader option" where
  "fill b = fill_loop maxConsecutiveEmptyReads b"

text \<open>What is still to be read: the bytes in the buffer and those the connection holds.\<close>

definition remaining :: "bufio_Reader \<Rightarrow> nat" where
  "remaining b = length (buf b) + sum_list (map (\<lambda>r. length (fst r)) (incoming (rd b)))"

lemma fill_loop_progress:
  "fill_loop i b = Some b' \<Longrightarrow> buf b = [] \<Longrightarrow> buf b' \<noteq> [] \<or> err b' \<noteq> None"
  by (induction i b rule: fill_loop.induct)
     (auto simp: Let_def split: option.splits if_splits)

lemma fill_loop_remaining:
  "fill_loop i b = Some b' \<Longrightarrow> remaining b' = remaining b"
proof (induction i b arbitrary: b' rule: fill_loop.induct)
  case (1 b)
  then show ?case by (auto simp: remaining_def)
next
  case (2 i b)
  then show ?case
    by (auto simp: Let_def remaining_def conn_Read_def
             split: option.splits if_splits list.splits)
qed

lemma fill_loop_outgoing:
  "fill_loop i b = Some b' \<Longrightarrow> outgoing (rd b') = outgoing (rd b)"
  by (induction i b arbitrary: b' rule: fill_loop.induct)
     (auto simp: Let_def conn_Read_def split: option.splits if_splits list.splits)

text \<open>
  \<open>ReadByte\<close>: while the buffer is empty, return the kept error (and forget it,
  \<open>readErr\<close>) or fill the buffer; then take one byte.
\<close>

function ReadByte :: "bufio_Reader \<Rightarrow> ((error + byte) \<times> bufio_Reader) option" where
  "ReadByte b =
     (case buf b of
        c # cs \<Rightarrow> Some (Inr c, b\<lparr>buf := cs\<rparr>)
      | [] \<Rightarrow>
          (case err b of
             Some e \<Rightarrow> Some (Inl e, b\<lparr>err := None\<rparr>)
           | None \<Rightarrow>
               (case fill b of
                  None \<Rightarrow> None
                | Some b' \<Rightarrow> ReadByte b')))"
  by pat_completeness auto
termination
proof (relation "measure (\<lambda>b. if buf b = [] \<and> err b = None then 1 else 0)")
  show "wf (measure (\<lambda>b. if buf b = [] \<and> err b = None then 1 else (0::nat)))"
    by simp
next
  fix b :: bufio_Reader and b'
  assume "buf b = []" "err b = None" "fill b = Some b'"
  then have "buf b' \<noteq> [] \<or> err b' \<noteq> None"
    using fill_loop_progress [of maxConsecutiveEmptyReads b b'] by (simp add: fill_def)
  then show "(b', b) \<in> measure (\<lambda>b. if buf b = [] \<and> err b = None then 1 else 0)"
    using \<open>buf b = []\<close> \<open>err b = None\<close> by auto
qed

declare ReadByte.simps [simp del]

lemma ReadByte_frame:
  "ReadByte b = Some (r, b') \<Longrightarrow>
     remaining b = (case r of Inr c \<Rightarrow> Suc (remaining b') | Inl e \<Rightarrow> remaining b')
     \<and> outgoing (rd b') = outgoing (rd b)"
proof (induction b rule: ReadByte.induct)
  case (1 b)
  show ?case
  proof (cases "buf b")
    case (Cons c cs)
    with "1.prems" show ?thesis
      by (auto simp: ReadByte.simps [of b] remaining_def)
  next
    case Nil
    show ?thesis
    proof (cases "err b")
      case (Some e)
      with Nil "1.prems" show ?thesis
        by (auto simp: ReadByte.simps [of b] remaining_def)
    next
      case None
      show ?thesis
      proof (cases "fill b")
        case None
        with Nil \<open>err b = None\<close> "1.prems" show ?thesis
          by (simp add: ReadByte.simps [of b])
      next
        case (Some b1)
        with Nil \<open>err b = None\<close> "1.prems" have "ReadByte b1 = Some (r, b')"
          by (simp add: ReadByte.simps [of b])
        note ih = "1.IH" [OF Nil \<open>err b = None\<close> Some this]
        moreover have "remaining b1 = remaining b" "outgoing (rd b1) = outgoing (rd b)"
          using Some fill_loop_remaining fill_loop_outgoing by (simp_all add: fill_def)
        ultimately show ?thesis by simp
      qed
    qed
  qed
qed

lemma ReadByte_remaining:
  "ReadByte b = Some (r, b') \<Longrightarrow>
     remaining b = (case r of Inr c \<Rightarrow> Suc (remaining b') | Inl e \<Rightarrow> remaining b')"
  by (simp add: ReadByte_frame)

lemma ReadByte_byte_less:
  "ReadByte b = Some (Inr c, b') \<Longrightarrow> remaining b' < remaining b"
  using ReadByte_remaining [of b "Inr c" b'] by simp

lemma ReadByte_outgoing:
  "ReadByte b = Some (r, b') \<Longrightarrow> outgoing (rd b') = outgoing (rd b)"
  by (simp add: ReadByte_frame)

subsection \<open>TelnetReader\<close>

text \<open>The protocol handler holds the buffered reader and nothing else.\<close>

record TelnetReader =
  reader :: bufio_Reader

definition NewTelnetReader :: "conn \<Rightarrow> TelnetReader" where
  "NewTelnetReader r = \<lparr>reader = \<lparr>buf = [], err = None, rd = r\<rparr>\<rparr>"

text \<open>
  The inner loop of \<open>Read\<close> after \<open>IAC SB\<close>: read bytes until an \<open>IAC\<close> is followed by
  \<open>SE\<close>. The result is the error that stopped it, or \<open>None\<close> after the \<open>break\<close>.
\<close>

function skip_sb :: "bufio_Reader \<Rightarrow> (error option \<times> bufio_Reader) option" where
  "skip_sb b =
     (case ReadByte b of
        None \<Rightarrow> None
      | Some (Inl e, b1) \<Rightarrow> Some (Some e, b1)
      | Some (Inr sbBytes, b1) \<Rightarrow>
          if sbBytes = IAC then
            (case ReadByte b1 of
               None \<Rightarrow> None
             | Some (Inl e, b2) \<Rightarrow> Some (Some e, b2)
             | Some (Inr next, b2) \<Rightarrow>
                 if next = SE then Some (None, b2) else skip_sb b2)
          else skip_sb b1)"
  by pat_completeness auto
termination
proof (relation "measure remaining")
  show "wf (measure remaining)" by simp
next
  fix b x2 x y sbBytes x2a xa ya "next"
  assume "ReadByte b = Some x2" "(x, y) = x2" "x = Inr sbBytes"
    "ReadByte y = Some x2a" "(xa, ya) = x2a" "xa = Inr next"
  then have "remaining y < remaining b" "remaining ya < remaining y"
    using ReadByte_byte_less by metis+
  then show "(ya, b) \<in> measure remaining" by simp
next
  fix b x2 x y sbBytes
  assume "ReadByte b = Some x2" "(x, y) = x2" "x = Inr sbBytes"
  then show "(y, b) \<in> measure remaining"
    using ReadByte_byte_less by (metis in_measure)
qed

declare skip_sb.simps [simp del]

lemma skip_sb_frame:
  "skip_sb b = Some (eo, b') \<Longrightarrow>
     remaining b' \<le> remaining b \<and> outgoing (rd b') = outgoing (rd b)"
proof (induction b rule: skip_sb.induct)
  case (1 b)
  from "1.prems" obtain r1 b1 where rb1: "ReadByte b = Some (r1, b1)"
    by (auto simp: skip_sb.simps [of b] split: option.splits)
  then have f1: "remaining b1 \<le> remaining b" "outgoing (rd b1) = outgoing (rd b)"
    using ReadByte_frame [of b r1 b1] by (cases r1; simp)+
  show ?case
  proof (cases r1)
    case (Inl e)
    with rb1 "1.prems" have "b' = b1"
      by (simp add: skip_sb.simps [of b])
    with f1 show ?thesis by simp
  next
    case (Inr c)
    show ?thesis
    proof (cases "c = IAC")
      case False
      with rb1 Inr "1.prems" have "skip_sb b1 = Some (eo, b')"
        by (simp add: skip_sb.simps [of b])
      with "1.IH"(2) [OF rb1 refl Inr False] f1 show ?thesis by simp
    next
      case True
      from "1.prems" rb1 Inr True obtain r2 b2 where rb2: "ReadByte b1 = Some (r2, b2)"
        by (auto simp: skip_sb.simps [of b] split: option.splits)
      then have f2: "remaining b2 \<le> remaining b1" "outgoing (rd b2) = outgoing (rd b1)"
        using ReadByte_frame [of b1 r2 b2] by (cases r2; simp)+
      show ?thesis
      proof (cases r2)
        case (Inl e)
        with rb1 rb2 Inr True "1.prems" have "b' = b2"
          by (simp add: skip_sb.simps [of b])
        with f1 f2 show ?thesis by simp
      next
        case (Inr d)
        show ?thesis
        proof (cases "d = SE")
          case True
          with rb1 rb2 \<open>r1 = Inr c\<close> \<open>c = IAC\<close> Inr "1.prems" have "b' = b2"
            by (simp add: skip_sb.simps [of b])
          with f1 f2 show ?thesis by simp
        next
          case False
          with rb1 rb2 \<open>r1 = Inr c\<close> \<open>c = IAC\<close> Inr "1.prems"
          have "skip_sb b2 = Some (eo, b')"
            by (simp add: skip_sb.simps [of b])
          with "1.IH"(1) [OF rb1 refl \<open>r1 = Inr c\<close> \<open>c = IAC\<close> rb2 refl Inr False]
            f1 f2
          show ?thesis by simp
        qed
      qed
    qed
  qed
qed

lemma skip_sb_remaining:
  "skip_sb b = Some (eo, b') \<Longrightarrow> remaining b' \<le> remaining b"
  by (simp add: skip_sb_frame)

lemma skip_sb_outgoing:
  "skip_sb b = Some (eo, b') \<Longrightarrow> outgoing (rd b') = outgoing (rd b)"
  by (simp add: skip_sb_frame)

text \<open>
  One pass through the body of the \<open>for n < len(p)\<close> loop of \<open>Read\<close>. It ends in a
  \<open>return\<close> (or the \<open>break\<close>, which leads to \<open>return n, nil\<close>), or it goes round again.
  \<open>None\<close> means that a \<open>ReadByte\<close> never came back.
\<close>

datatype ctl =
    Return "byte list" nat "error option" TelnetReader
  | Again "byte list" nat TelnetReader

text \<open>The test that ends the body: \<open>if t.reader.Buffered() == 0 && n > 0 { break }\<close>.\<close>

definition flush_check :: "byte list \<Rightarrow> nat \<Rightarrow> TelnetReader \<Rightarrow> ctl" where
  "flush_check p n t =
     (if Buffered (reader t) = 0 \<and> n > 0 then Return p n None t else Again p n t)"

definition Read_iter :: "byte list \<Rightarrow> nat \<Rightarrow> TelnetReader \<Rightarrow> ctl option" where
  "Read_iter p n t =
     (case ReadByte (reader t) of
        None \<Rightarrow> None
      | Some (Inl e, r1) \<Rightarrow> Some (Return p n (Some e) (t\<lparr>reader := r1\<rparr>))
      | Some (Inr b, r1) \<Rightarrow>
          if b = IAC then
            (case ReadByte r1 of
               None \<Rightarrow> None
             | Some (Inl e, r2) \<Rightarrow> Some (Return p n (Some e) (t\<lparr>reader := r2\<rparr>))
             | Some (Inr cmd, r2) \<Rightarrow>
                 if cmd = IAC then
                   Some (flush_check (p[n := IAC]) (n + 1) (t\<lparr>reader := r2\<rparr>))
                 else if cmd = DO \<or> cmd = DONT \<or> cmd = WILL \<or> cmd = WONT then
                   (case ReadByte r2 of
                      None \<Rightarrow> None
                    | Some (Inl e, r3) \<Rightarrow> Some (Return p n (Some e) (t\<lparr>reader := r3\<rparr>))
                    | Some (Inr _, r3) \<Rightarrow> Some (flush_check p n (t\<lparr>reader := r3\<rparr>)))
                 else if cmd = SB then
                   (case skip_sb r2 of
                      None \<Rightarrow> None
                    | Some (Some e, r3) \<Rightarrow> Some (Return p n (Some e) (t\<lparr>reader := r3\<rparr>))
                    | Some (None, r3) \<Rightarrow> Some (flush_check p n (t\<lparr>reader := r3\<rparr>)))
                 else Some (Again p n (t\<lparr>reader := r2\<rparr>)))
          else Some (flush_check (p[n := b]) (n + 1) (t\<lparr>reader := r1\<rparr>)))"

lemma Read_iter_remaining:
  assumes "Read_iter p n t = Some c"
  shows "case c of
           Again p' n' t' \<Rightarrow> remaining (reader t') < remaining (reader t)
         | Return p' n' eo t' \<Rightarrow>
             (eo = None \<longrightarrow> remaining (reader t') < remaining (reader t))
             \<and> remaining (reader t') \<le> remaining (reader t)"
proof -
  from assms obtain r1 b1 where rb1: "ReadByte (reader t) = Some (r1, b1)"
    by (auto simp: Read_iter_def split: option.splits)
  show ?thesis
  proof (cases r1)
    case (Inl e)
    with rb1 assms ReadByte_remaining [of "reader t" r1 b1] show ?thesis
      by (auto simp: Read_iter_def)
  next
    case (Inr b)
    with rb1 have less1: "remaining b1 < remaining (reader t)"
      using ReadByte_byte_less by simp
    show ?thesis
    proof (cases "b = IAC")
      case False
      with rb1 Inr assms less1 show ?thesis
        by (auto simp: Read_iter_def flush_check_def)
    next
      case True
      from assms rb1 Inr True obtain r2 b2 where rb2: "ReadByte b1 = Some (r2, b2)"
        by (auto simp: Read_iter_def split: option.splits)
      show ?thesis
      proof (cases r2)
        case (Inl e)
        with rb1 rb2 \<open>r1 = Inr b\<close> True assms less1 ReadByte_remaining [of b1 r2 b2]
        show ?thesis
          by (auto simp: Read_iter_def)
      next
        case (Inr cmd)
        with rb2 less1 have less2: "remaining b2 < remaining (reader t)"
          using ReadByte_byte_less [of b1 cmd b2] by simp
        consider (lit) "cmd = IAC"
          | (neg) "cmd = DO \<or> cmd = DONT \<or> cmd = WILL \<or> cmd = WONT"
          | (sub) "cmd = SB"
          | (other) "cmd \<noteq> IAC" "\<not> (cmd = DO \<or> cmd = DONT \<or> cmd = WILL \<or> cmd = WONT)"
              "cmd \<noteq> SB"
          by blast
        then show ?thesis
        proof cases
          case lit
          with rb1 rb2 \<open>r1 = Inr b\<close> True Inr assms less2 show ?thesis
            by (auto simp: Read_iter_def flush_check_def)
        next
          case neg
          from neg have nl: "cmd \<noteq> IAC" by auto
          from assms rb1 rb2 \<open>r1 = Inr b\<close> True Inr neg nl
          obtain r3 b3 where rb3: "ReadByte b2 = Some (r3, b3)"
            by (auto simp: Read_iter_def split: option.splits)
          with ReadByte_remaining [of b2 r3 b3] less2
          have "remaining b3 < remaining (reader t)"
            by (cases r3) auto
          with assms rb1 rb2 rb3 \<open>r1 = Inr b\<close> True Inr neg nl show ?thesis
            by (cases r3) (auto simp: Read_iter_def flush_check_def)
        next
          case sub
          from assms rb1 rb2 \<open>r1 = Inr b\<close> True Inr sub
          obtain eo b3 where sk: "skip_sb b2 = Some (eo, b3)"
            by (auto simp: Read_iter_def split: option.splits)
          with skip_sb_remaining [of b2 eo b3] less2
          have "remaining b3 < remaining (reader t)" by simp
          with assms rb1 rb2 sk \<open>r1 = Inr b\<close> True Inr sub show ?thesis
            by (cases eo) (auto simp: Read_iter_def flush_check_def)
        next
          case other
          with rb1 rb2 \<open>r1 = Inr b\<close> True Inr assms less2 show ?thesis
            by (auto simp: Read_iter_def)
        qed
      qed
    qed
  qed
qed

text \<open>
  The loop \<open>for n < len(p)\<close> and the final \<open>return n, nil\<close>. The result is the buffer,
  the count \<open>n\<close>, the error and the reader; the bytes handed to the caller are
  \<open>take n p\<close>. In the body \<open>n < length p\<close> holds, so \<open>p[n]\<close> is always in range.
\<close>

function Read_loop ::
  "byte list \<Rightarrow> nat \<Rightarrow> TelnetReader \<Rightarrow> (byte list \<times> nat \<times> error option \<times> TelnetReader) option"
where
  "Read_loop p n t =
     (if n < length p then
        (case Read_iter p n t of
           None \<Rightarrow> None
         | Some (Return p' n' e t') \<Rightarrow> Some (p', n', e, t')
         | Some (Again p' n' t') \<Rightarrow> Read_loop p' n' t')
      else Some (p, n, None, t))"
  by pat_completeness auto
termination
proof (relation "measure (\<lambda>(p, n, t). remaining (reader t))")
  show "wf (measure (\<lambda>(p, n, t). remaining (reader t)))" by simp
next
  fix p :: "byte list" and n :: nat and t c p' n' t'
  assume "Read_iter p n t = Some c" "c = Again p' n' t'"
  then show "((p', n', t'), p, n, t) \<in> measure (\<lambda>(p, n, t). remaining (reader t))"
    using Read_iter_remaining [of p n t c] by simp
qed

declare Read_loop.simps [simp del]

definition Read :: "byte list \<Rightarrow> TelnetReader \<Rightarrow> (byte list \<times> nat \<times> error option \<times> TelnetReader) option" where
  "Read p t = Read_loop p 0 t"

lemma Read_loop_remaining:
  "Read_loop p n t = Some (p', n', eo, t') \<Longrightarrow>
     remaining (reader t') \<le> remaining (reader t)
     \<and> (n < length p \<and> eo = None \<longrightarrow> remaining (reader t') < remaining (reader t))"
proof (induction p n t rule: Read_loop.induct)
  case (1 p n t)
  show ?case
  proof (cases "n < length p")
    case False
    with "1.prems" show ?thesis by (simp add: Read_loop.simps [of p n t])
  next
    case True
    with "1.prems" obtain c where c: "Read_iter p n t = Some c"
      by (auto simp: Read_loop.simps [of p n t] split: option.splits)
    note rem = Read_iter_remaining [OF c]
    show ?thesis
    proof (cases c)
      case (Return p1 n1 e1 t1)
      with True c "1.prems" rem show ?thesis
        by (auto simp: Read_loop.simps [of p n t])
    next
      case (Again p1 n1 t1)
      with True c "1.prems" have "Read_loop p1 n1 t1 = Some (p', n', eo, t')"
        by (simp add: Read_loop.simps [of p n t])
      from "1.IH" [OF True c Again this] rem Again show ?thesis by simp
    qed
  qed
qed

text \<open>
  Goroutine A of \<open>main\<close> drains the reader with \<open>io.Copy\<close>: \<open>Read\<close> into one buffer
  again and again, write \<open>buf[0:nr]\<close> to the output, stop at the first error. The
  result is what went to the output and the error that ended the loop; \<open>None\<close> when
  the loop never ends (a \<open>Read\<close> blocks for ever, or the buffer has no room).
\<close>

function copy_loop :: "byte list \<Rightarrow> TelnetReader \<Rightarrow> (byte list \<times> error) option" where
  "copy_loop b t =
     (if length b = 0 then None
      else
        (case Read b t of
           None \<Rightarrow> None
         | Some (b', nr, Some er, t') \<Rightarrow> Some (take nr b', er)
         | Some (b', nr, None, t') \<Rightarrow>
             (case copy_loop b' t' of
                None \<Rightarrow> None
              | Some (out, er) \<Rightarrow> Some (take nr b' @ out, er))))"
  by pat_completeness auto
termination
proof (relation "measure (\<lambda>(b, t). remaining (reader t))")
  show "wf (measure (\<lambda>(b, t). remaining (reader t)))" by simp
next
  fix b :: "byte list" and t x2 b' y nr ya eo t'
  assume "length b \<noteq> 0" "Read b t = Some x2" "(b', y) = x2" "(nr, ya) = y"
    "(eo, t') = ya" "eo = None"
  then have "Read_loop b 0 t = Some (b', nr, None, t')" "0 < length b"
    by (auto simp: Read_def)
  then show "((b', t'), b, t) \<in> measure (\<lambda>(b, t). remaining (reader t))"
    using Read_loop_remaining [of b 0 t b' nr None t'] by simp
qed

declare copy_loop.simps [simp del]


text \<open>
  A connection that delivers the chunks \<open>cs\<close>, one per \<open>Read\<close>, and then fails with
  \<open>e\<close> (\<open>io.EOF\<close> when the peer closes).
\<close>

definition delivered :: "byte list list \<Rightarrow> error \<Rightarrow> conn" where
  "delivered cs e = \<lparr>incoming = map (\<lambda>c. (c, None)) cs @ [([], Some e)], outgoing = []\<rparr>"


subsection \<open>The input a reader still holds\<close>

text \<open>
  \<open>pending\<close> is the byte sequence the coming \<open>ReadByte\<close> calls return before the
  first error: the buffer, then the reads of the connection up to the first one that
  carries an error. \<open>ending\<close> is that error, \<open>None\<close> when the connection just stops
  delivering. A connection is \<open>progressing\<close> when none of its reads returns no bytes
  and no error.
\<close>

fun avail :: "read_result list \<Rightarrow> byte list" where
  "avail [] = []"
| "avail ((bs, None) # rs) = bs @ avail rs"
| "avail ((bs, Some e) # rs) = bs"

fun ending_of :: "read_result list \<Rightarrow> error option" where
  "ending_of [] = None"
| "ending_of ((bs, None) # rs) = ending_of rs"
| "ending_of ((bs, Some e) # rs) = Some e"

definition pending :: "bufio_Reader \<Rightarrow> byte list" where
  "pending b = buf b @ (case err b of None \<Rightarrow> avail (incoming (rd b)) | Some e \<Rightarrow> [])"

definition ending :: "bufio_Reader \<Rightarrow> error option" where
  "ending b = (case err b of None \<Rightarrow> ending_of (incoming (rd b)) | Some e \<Rightarrow> Some e)"

definition progressing :: "bufio_Reader \<Rightarrow> bool" where
  "progressing b = list_all (\<lambda>r. fst r \<noteq> [] \<or> snd r \<noteq> None) (incoming (rd b))"

lemma fill_step:
  "fill b =
     (case conn_Read (rd b) of
        None \<Rightarrow> None
      | Some ((bs, e), c) \<Rightarrow>
          (let b' = b\<lparr>buf := buf b @ bs, rd := c\<rparr> in
           case e of
             Some x \<Rightarrow> Some (b'\<lparr>err := Some x\<rparr>)
           | None \<Rightarrow> if bs \<noteq> [] then Some b' else fill_loop 99 b'))"
proof -
  have "fill b = fill_loop (Suc 99) b"
    by (simp add: fill_def maxConsecutiveEmptyReads_def)
  then show ?thesis by (simp only: fill_loop.simps)
qed

lemma fill_first:
  assumes "buf b = []" "err b = None" "incoming (rd b) = (bs, eo) # rs"
    "bs \<noteq> [] \<or> eo \<noteq> None"
  shows "fill b = Some \<lparr>buf = bs, err = eo, rd = (rd b)\<lparr>incoming := rs\<rparr>\<rparr>"
  using assms by (cases b) (auto simp: fill_step conn_Read_def Let_def split: option.splits)

lemma ReadByte_buffered:
  "buf b = c # cs \<Longrightarrow> ReadByte b = Some (Inr c, b\<lparr>buf := cs\<rparr>)"
  by (simp add: ReadByte.simps [of b])

lemma ReadByte_byte:
  assumes "progressing b" "pending b = c # s"
  shows "\<exists>b'. ReadByte b = Some (Inr c, b') \<and> progressing b' \<and> pending b' = s
            \<and> ending b' = ending b"
proof (cases "buf b")
  case (Cons c' cs)
  with assms show ?thesis
    by (cases "err b") (auto simp: ReadByte_buffered pending_def ending_def progressing_def)
next
  case Nil
  with assms(2) have e: "err b = None"
    by (auto simp: pending_def split: option.splits)
  with Nil assms(2) obtain bs eo rs where inc: "incoming (rd b) = (bs, eo) # rs"
    by (cases "incoming (rd b)") (auto simp: pending_def)
  with assms(1) have ne: "bs \<noteq> [] \<or> eo \<noteq> None"
    by (simp add: progressing_def)
  let ?b1 = "\<lparr>buf = bs, err = eo, rd = (rd b)\<lparr>incoming := rs\<rparr>\<rparr>"
  have f: "fill b = Some ?b1"
    using fill_first [OF Nil e inc ne] .
  have bs: "bs = c # tl bs"
    using assms(2) Nil e inc ne by (cases eo; cases bs) (auto simp: pending_def)
  have rb: "ReadByte b = Some (Inr c, ?b1\<lparr>buf := tl bs\<rparr>)"
    using Nil e f ReadByte_buffered [of ?b1 c "tl bs"] bs
    by (simp add: ReadByte.simps [of b])
  moreover have "progressing (?b1\<lparr>buf := tl bs\<rparr>)"
    using assms(1) inc by (simp add: progressing_def)
  moreover have "pending (?b1\<lparr>buf := tl bs\<rparr>) = s"
    using assms(2) Nil e inc bs by (cases eo; cases bs) (auto simp: pending_def)
  moreover have "ending (?b1\<lparr>buf := tl bs\<rparr>) = ending b"
    using e inc by (cases eo) (auto simp: ending_def)
  ultimately show ?thesis by blast
qed

lemma ReadByte_error:
  assumes "progressing b" "pending b = []" "ending b = Some e"
  shows "\<exists>b'. ReadByte b = Some (Inl e, b') \<and> progressing b'"
proof (cases "err b")
  case (Some x)
  with assms show ?thesis
    by (auto simp: ReadByte.simps [of b] pending_def ending_def progressing_def)
next
  case None
  from assms(2) have Nil: "buf b = []" by (simp add: pending_def)
  from None assms(3) obtain bs eo rs where inc: "incoming (rd b) = (bs, eo) # rs"
    by (cases "incoming (rd b)") (auto simp: ending_def)
  with assms(2) None have bs: "bs = []"
    by (cases eo) (auto simp: pending_def)
  with assms(1) inc have "eo \<noteq> None" by (simp add: progressing_def)
  with assms(3) None inc have eo: "eo = Some e" by (auto simp: ending_def)
  let ?b1 = "\<lparr>buf = [], err = Some e, rd = (rd b)\<lparr>incoming := rs\<rparr>\<rparr>"
  have f: "fill b = Some ?b1"
    using fill_first [OF Nil None inc] bs eo by simp
  have "ReadByte b = Some (Inl e, ?b1\<lparr>err := None\<rparr>)"
    using Nil None f by (simp add: ReadByte.simps [of b] ReadByte.simps [of ?b1])
  moreover have "progressing (?b1\<lparr>err := None\<rparr>)"
    using assms(1) inc by (simp add: progressing_def)
  ultimately show ?thesis by blast
qed

lemma ReadByte_blocks:
  assumes "progressing b" "pending b = []" "ending b = None"
  shows "ReadByte b = None"
proof -
  from assms(3) have e: "err b = None" by (auto simp: ending_def split: option.splits)
  from assms(2) have Nil: "buf b = []" by (simp add: pending_def)
  have "incoming (rd b) = []"
  proof (cases "incoming (rd b)")
    case (Cons r rs)
    obtain bs eo where r: "r = (bs, eo)" by (cases r)
    with assms e Cons show ?thesis
      by (cases eo) (auto simp: pending_def ending_def progressing_def)
  qed simp
  then have "fill b = None"
    by (simp add: fill_step conn_Read_def)
  with Nil e show ?thesis by (simp add: ReadByte.simps [of b])
qed

subsection \<open>One pass of the loop, read off the input\<close>

text \<open>
  What the inner loop after \<open>IAC SB\<close> leaves of an input: the bytes behind the first
  \<open>IAC SE\<close> it meets, reading as it does (an \<open>IAC\<close> takes the next byte with it);
  \<open>None\<close> when the input runs out first.
\<close>

fun sb_rest :: "byte list \<Rightarrow> byte list option" where
  "sb_rest [] = None"
| "sb_rest [b] = None"
| "sb_rest (b # c # s) =
     (if b = IAC then (if c = SE then Some s else sb_rest s) else sb_rest (c # s))"

text \<open>An inner loop that ran out of input: it returns the reader's ending, or never.\<close>

definition stops :: "bufio_Reader \<Rightarrow> (error option \<times> bufio_Reader) option \<Rightarrow> bool" where
  "stops b res =
     (case ending b of
        None \<Rightarrow> res = None
      | Some e \<Rightarrow> (\<exists>b'. res = Some (Some e, b') \<and> progressing b'))"

lemma skip_sb_char:
  "progressing b \<Longrightarrow> pending b = s \<Longrightarrow>
     (case sb_rest s of
        Some rest \<Rightarrow>
          (\<exists>b'. skip_sb b = Some (None, b') \<and> progressing b' \<and> pending b' = rest
                \<and> ending b' = ending b)
      | None \<Rightarrow> stops b (skip_sb b))"
proof (induction s arbitrary: b rule: sb_rest.induct)
  case 1
  then show ?case
    using ReadByte_error [of b] ReadByte_blocks [of b]
    by (cases "ending b") (auto simp: skip_sb.simps [of b] stops_def)
next
  case (2 c)
  from ReadByte_byte [OF "2.prems"(1), of c "[]"] "2.prems"(2)
  obtain b1 where b1: "ReadByte b = Some (Inr c, b1)" "progressing b1" "pending b1 = []"
    "ending b1 = ending b" by auto
  have st: "stops b (skip_sb b1)"
    using b1 ReadByte_error [of b1] ReadByte_blocks [of b1]
    by (cases "ending b") (auto simp: skip_sb.simps [of b1] stops_def)
  have "skip_sb b = skip_sb b1"
    using b1 ReadByte_error [of b1] ReadByte_blocks [of b1]
    by (cases "ending b") (auto simp: skip_sb.simps [of b] skip_sb.simps [of b1])
  with st show ?case by simp
next
  case (3 c d s)
  from ReadByte_byte [OF "3.prems"(1), of c "d # s"] "3.prems"(2)
  obtain b1 where b1: "ReadByte b = Some (Inr c, b1)" "progressing b1" "pending b1 = d # s"
    "ending b1 = ending b" by auto
  from ReadByte_byte [OF b1(2), of d s] b1(3)
  obtain b2 where b2: "ReadByte b1 = Some (Inr d, b2)" "progressing b2" "pending b2 = s"
    "ending b2 = ending b1" by auto
  show ?case
  proof (cases "c = IAC")
    case False
    then have "skip_sb b = skip_sb b1"
      using b1 by (simp add: skip_sb.simps [of b])
    moreover have "stops b x = stops b1 x" for x
      using b1(4) by (simp add: stops_def)
    ultimately show ?thesis
      using "3.IH"(2) [OF False b1(2) b1(3)] False b1(4)
      by (auto split: option.splits)
  next
    case True
    show ?thesis
    proof (cases "d = SE")
      case True
      with \<open>c = IAC\<close> b1 b2 show ?thesis
        by (simp add: skip_sb.simps [of b])
    next
      case False
      with \<open>c = IAC\<close> have "skip_sb b = skip_sb b2"
        using b1 b2 by (simp add: skip_sb.simps [of b])
      moreover have "stops b x = stops b2 x" for x
        using b1(4) b2(4) by (simp add: stops_def)
      ultimately show ?thesis
        using "3.IH"(1) [OF True False b2(2) b2(3)] True False b1(4) b2(4)
        by (auto split: option.splits)
    qed
  qed
qed

text \<open>
  What one pass of the loop body makes of the input: it runs out inside the pass
  (\<open>Incomplete\<close>), a byte is stored (\<open>Emit\<close>), a negotiation or subnegotiation is dropped
  (\<open>Skip\<close>), an unrecognized command is dropped (\<open>Ignore\<close>); each with the input left.
\<close>

datatype parsed =
    Incomplete
  | Emit byte "byte list"
  | Skip "byte list"
  | Ignore "byte list"

fun parse :: "byte list \<Rightarrow> parsed" where
  "parse [] = Incomplete"
| "parse (b # s) =
     (if b = IAC then
        (case s of
           [] \<Rightarrow> Incomplete
         | cmd # s' \<Rightarrow>
             if cmd = IAC then Emit IAC s'
             else if cmd = DO \<or> cmd = DONT \<or> cmd = WILL \<or> cmd = WONT then
               (case s' of [] \<Rightarrow> Incomplete | opt # s'' \<Rightarrow> Skip s'')
             else if cmd = SB then
               (case sb_rest s' of None \<Rightarrow> Incomplete | Some r \<Rightarrow> Skip r)
             else Ignore s')
      else Emit b s)"

text \<open>
  A pass that ran out of input returns the reader's ending with buffer and count
  untouched, or never returns. A pass that did not run out \<open>carries_on\<close> with a reader
  that holds the rest of the input, has the same ending and has written nothing.
\<close>

definition fails :: "TelnetReader \<Rightarrow> byte list \<Rightarrow> nat \<Rightarrow> ctl option \<Rightarrow> bool" where
  "fails t p n res =
     (case ending (reader t) of
        None \<Rightarrow> res = None
      | Some e \<Rightarrow> (\<exists>t'. res = Some (Return p n (Some e) t') \<and> progressing (reader t')
           \<and> outgoing (rd (reader t')) = outgoing (rd (reader t))))"

definition carries_on :: "TelnetReader \<Rightarrow> byte list \<Rightarrow> TelnetReader \<Rightarrow> bool" where
  "carries_on t rest t' \<longleftrightarrow>
     progressing (reader t') \<and> pending (reader t') = rest
     \<and> ending (reader t') = ending (reader t)
     \<and> outgoing (rd (reader t')) = outgoing (rd (reader t))"

lemma ReadByte_end:
  assumes "progressing b" "pending b = []"
  shows "case ending b of
           None \<Rightarrow> ReadByte b = None
         | Some e \<Rightarrow> (\<exists>b'. ReadByte b = Some (Inl e, b') \<and> progressing b'
                        \<and> outgoing (rd b') = outgoing (rd b))"
  using assms ReadByte_error [of b] ReadByte_blocks [of b] ReadByte_outgoing [of b]
  by (cases "ending b") auto

lemma ReadByte_next:
  assumes "progressing b" "pending b = c # s"
  obtains b' where "ReadByte b = Some (Inr c, b')" "progressing b'" "pending b' = s"
    "ending b' = ending b" "outgoing (rd b') = outgoing (rd b)"
  using ReadByte_byte [OF assms] ReadByte_outgoing [of b] by blast

lemma Read_iter_char:
  assumes "progressing (reader t)"
  shows "case parse (pending (reader t)) of
           Incomplete \<Rightarrow> fails t p n (Read_iter p n t)
         | Emit b rest \<Rightarrow>
             (\<exists>t'. Read_iter p n t = Some (flush_check (p[n := b]) (n + 1) t')
                   \<and> carries_on t rest t')
         | Skip rest \<Rightarrow>
             (\<exists>t'. Read_iter p n t = Some (flush_check p n t') \<and> carries_on t rest t')
         | Ignore rest \<Rightarrow>
             (\<exists>t'. Read_iter p n t = Some (Again p n t') \<and> carries_on t rest t')"
proof (cases "pending (reader t)")
  case Nil
  with ReadByte_end [OF assms] show ?thesis
    by (cases "ending (reader t)") (auto simp: Read_iter_def fails_def)
next
  case (Cons b s)
  from ReadByte_next [OF assms Cons]
  obtain r1 where r1: "ReadByte (reader t) = Some (Inr b, r1)" "progressing r1"
    "pending r1 = s" "ending r1 = ending (reader t)"
    "outgoing (rd r1) = outgoing (rd (reader t))" .
  show ?thesis
  proof (cases "b = IAC")
    case False
    with Cons r1 show ?thesis
      by (auto simp: Read_iter_def carries_on_def intro!: exI [of _ "t\<lparr>reader := r1\<rparr>"])
  next
    case True
    show ?thesis
    proof (cases s)
      case Nil
      with ReadByte_end [OF r1(2)] r1 True Cons show ?thesis
        by (cases "ending (reader t)") (auto simp: Read_iter_def fails_def)
    next
      case (Cons cmd s')
      from ReadByte_next [OF r1(2)] r1(3) Cons
      obtain r2 where r2: "ReadByte r1 = Some (Inr cmd, r2)" "progressing r2"
        "pending r2 = s'" "ending r2 = ending r1" "outgoing (rd r2) = outgoing (rd r1)"
        by metis
      have pend: "pending (reader t) = IAC # cmd # s'"
        using \<open>pending (reader t) = b # s\<close> True Cons by simp
      consider (lit) "cmd = IAC"
        | (neg) "cmd = DO \<or> cmd = DONT \<or> cmd = WILL \<or> cmd = WONT"
        | (sub) "cmd = SB"
        | (other) "cmd \<noteq> IAC" "\<not> (cmd = DO \<or> cmd = DONT \<or> cmd = WILL \<or> cmd = WONT)"
            "cmd \<noteq> SB"
        by blast
      then show ?thesis
      proof cases
        case lit
        with pend r1 r2 True show ?thesis
          by (auto simp: Read_iter_def carries_on_def intro!: exI [of _ "t\<lparr>reader := r2\<rparr>"])
      next
        case neg
        then have nl: "cmd \<noteq> IAC" by auto
        show ?thesis
        proof (cases s')
          case Nil
          with ReadByte_end [OF r2(2)] r1 r2 True pend neg nl show ?thesis
            by (cases "ending (reader t)") (auto simp: Read_iter_def fails_def)
        next
          case (Cons opt s'')
          from ReadByte_next [OF r2(2)] r2(3) Cons
          obtain r3 where r3: "ReadByte r2 = Some (Inr opt, r3)" "progressing r3"
            "pending r3 = s''" "ending r3 = ending r2" "outgoing (rd r3) = outgoing (rd r2)"
            by metis
          have "Read_iter p n t = Some (flush_check p n (t\<lparr>reader := r3\<rparr>))"
            using r1 r2 r3 True neg nl by (simp add: Read_iter_def)
          moreover have "carries_on t s'' (t\<lparr>reader := r3\<rparr>)"
            using r1 r2 r3 by (simp add: carries_on_def)
          moreover have "parse (pending (reader t)) = Skip s''"
            using pend Cons neg nl by simp
          ultimately show ?thesis by auto
        qed
      next
        case sub
        have it: "Read_iter p n t =
            (case skip_sb r2 of
               None \<Rightarrow> None
             | Some (Some e, r3) \<Rightarrow> Some (Return p n (Some e) (t\<lparr>reader := r3\<rparr>))
             | Some (None, r3) \<Rightarrow> Some (flush_check p n (t\<lparr>reader := r3\<rparr>)))"
          using r1 r2 True sub by (simp add: Read_iter_def)
        have pp: "parse (pending (reader t)) =
            (case sb_rest s' of None \<Rightarrow> Incomplete | Some r \<Rightarrow> Skip r)"
          using pend sub by simp
        show ?thesis
        proof (cases "sb_rest s'")
          case None
          with skip_sb_char [OF r2(2) r2(3)] have "stops r2 (skip_sb r2)" by simp
          moreover have "ending r2 = ending (reader t)" using r1 r2 by simp
          ultimately have "fails t p n (Read_iter p n t)"
            using it r1(5) r2(5) skip_sb_outgoing [of r2]
            by (cases "ending (reader t)") (auto simp: stops_def fails_def)
          with pp None show ?thesis by simp
        next
          case (Some rest)
          with skip_sb_char [OF r2(2) r2(3)]
          obtain r3 where r3: "skip_sb r2 = Some (None, r3)" "progressing r3"
            "pending r3 = rest" "ending r3 = ending r2" by auto
          from r3(1) have "outgoing (rd r3) = outgoing (rd r2)"
            by (rule skip_sb_outgoing)
          note r3 = r3 this
          have "Read_iter p n t = Some (flush_check p n (t\<lparr>reader := r3\<rparr>))"
            using it r3 by simp
          moreover have "carries_on t rest (t\<lparr>reader := r3\<rparr>)"
            using r1 r2 r3 by (simp add: carries_on_def)
          ultimately show ?thesis using pp Some by auto
        qed
      next
        case other
        with pend r1 r2 True show ?thesis
          by (auto simp: Read_iter_def carries_on_def intro!: exI [of _ "t\<lparr>reader := r2\<rparr>"])
      qed
    qed
  qed
qed

subsection \<open>The decoder of the specification\<close>

text \<open>
  The byte-by-byte state machine of the specification: one state per position inside a
  control sequence, a transition for each byte, at most one byte of output per step.
\<close>

datatype spec_state = Idle | SeenIAC | InNegotiation | InSubnegotiation | InSubIAC

fun spec_step :: "spec_state \<Rightarrow> byte \<Rightarrow> spec_state \<times> byte list" where
  "spec_step Idle b = (if b = IAC then (SeenIAC, []) else (Idle, [b]))"
| "spec_step SeenIAC b =
     (if b = IAC then (Idle, [IAC])
      else if b = DO \<or> b = DONT \<or> b = WILL \<or> b = WONT then (InNegotiation, [])
      else if b = SB then (InSubnegotiation, [])
      else (Idle, []))"
| "spec_step InNegotiation b = (Idle, [])"
| "spec_step InSubnegotiation b = (if b = IAC then (InSubIAC, []) else (InSubnegotiation, []))"
| "spec_step InSubIAC b = (if b = SE then (Idle, []) else (InSubnegotiation, []))"

fun spec_decode_from :: "spec_state \<Rightarrow> byte list \<Rightarrow> byte list" where
  "spec_decode_from st [] = []"
| "spec_decode_from st (b # s) = snd (spec_step st b) @ spec_decode_from (fst (spec_step st b)) s"

fun spec_state_after :: "spec_state \<Rightarrow> byte list \<Rightarrow> spec_state" where
  "spec_state_after st [] = st"
| "spec_state_after st (b # s) = spec_state_after (fst (spec_step st b)) s"

definition spec_decode :: "byte list \<Rightarrow> byte list" where
  "spec_decode s = spec_decode_from Idle s"

lemma decode_from_append:
  "spec_decode_from st (u @ v) = spec_decode_from st u @ spec_decode_from (spec_state_after st u) v"
  by (induction u arbitrary: st) auto

lemma state_after_append:
  "spec_state_after st (u @ v) = spec_state_after (spec_state_after st u) v"
  by (induction u arbitrary: st) auto

lemma sb_rest_machine:
  "case sb_rest s of
     None \<Rightarrow> spec_decode_from InSubnegotiation s = []
   | Some r \<Rightarrow> (\<exists>u. s = u @ r \<and> spec_state_after InSubnegotiation u = Idle
                    \<and> spec_decode_from InSubnegotiation u = [])"
proof (induction s rule: sb_rest.induct)
  case 1
  show ?case by simp
next
  case (2 b)
  show ?case by simp
next
  case (3 b c s)
  show ?case
  proof (cases "b = IAC")
    case False
    with "3.IH"(2) show ?thesis
      by (auto split: option.splits intro: exI [of _ "b # u" for u])
  next
    case True
    show ?thesis
    proof (cases "c = SE")
      case True
      with \<open>b = IAC\<close> show ?thesis
        by (auto intro!: exI [of _ "[IAC, SE]"])
    next
      case False
      with True "3.IH"(1) show ?thesis
        by (auto split: option.splits intro: exI [of _ "b # c # u" for u])
    qed
  qed
qed

text \<open>What the unit at the head of the input turns into, and what is left behind it.\<close>

fun unit_out :: "parsed \<Rightarrow> byte list" where
  "unit_out Incomplete = []"
| "unit_out (Emit b r) = [b]"
| "unit_out (Skip r) = []"
| "unit_out (Ignore r) = []"

fun unit_rest :: "parsed \<Rightarrow> byte list option" where
  "unit_rest Incomplete = None"
| "unit_rest (Emit b r) = Some r"
| "unit_rest (Skip r) = Some r"
| "unit_rest (Ignore r) = Some r"

lemma parse_machine:
  "case unit_rest (parse s) of
     None \<Rightarrow> spec_decode s = []
   | Some r \<Rightarrow> (\<exists>u. u \<noteq> [] \<and> s = u @ r \<and> spec_state_after Idle u = Idle
                    \<and> spec_decode u = unit_out (parse s))"
proof (cases s)
  case Nil
  then show ?thesis by (simp add: spec_decode_def)
next
  case (Cons b s1)
  show ?thesis
  proof (cases "b = IAC")
    case False
    with Cons show ?thesis
      by (auto simp: spec_decode_def intro!: exI [of _ "[b]"])
  next
    case True
    show ?thesis
    proof (cases s1)
      case Nil
      with Cons True show ?thesis by (simp add: spec_decode_def)
    next
      case (Cons cmd s2)
      note s = \<open>s = b # s1\<close> True Cons
      consider (lit) "cmd = IAC"
        | (neg) "cmd = DO \<or> cmd = DONT \<or> cmd = WILL \<or> cmd = WONT"
        | (sub) "cmd = SB"
        | (other) "cmd \<noteq> IAC" "\<not> (cmd = DO \<or> cmd = DONT \<or> cmd = WILL \<or> cmd = WONT)"
            "cmd \<noteq> SB"
        by blast
      then show ?thesis
      proof cases
        case lit
        with s show ?thesis
          by (auto simp: spec_decode_def intro!: exI [of _ "[IAC, IAC]"])
      next
        case neg
        then have nl: "cmd \<noteq> IAC" by auto
        show ?thesis
        proof (cases s2)
          case Nil
          with s neg nl show ?thesis by (auto simp: spec_decode_def)
        next
          case (Cons opt s3)
          with s neg nl have "parse s = Skip s3" by simp
          moreover have "spec_state_after Idle [IAC, cmd, opt] = Idle"
            "spec_decode [IAC, cmd, opt] = []"
            using neg nl by (auto simp: spec_decode_def)
          moreover have "s = [IAC, cmd, opt] @ s3" using s Cons by simp
          ultimately show ?thesis by (auto intro!: exI [of _ "[IAC, cmd, opt]"])
        qed
      next
        case sub
        have ps: "parse s = (case sb_rest s2 of None \<Rightarrow> Incomplete | Some r \<Rightarrow> Skip r)"
          using s sub by simp
        have ds: "spec_decode s = spec_decode_from InSubnegotiation s2"
          using s sub by (simp add: spec_decode_def)
        show ?thesis
        proof (cases "sb_rest s2")
          case None
          with sb_rest_machine [of s2] ps ds show ?thesis by simp
        next
          case (Some r)
          with sb_rest_machine [of s2] obtain u where u: "s2 = u @ r"
            "spec_state_after InSubnegotiation u = Idle" "spec_decode_from InSubnegotiation u = []"
            by auto
          have "s = (IAC # SB # u) @ r" using s sub u by simp
          moreover have "spec_state_after Idle (IAC # SB # u) = Idle"
            "spec_decode (IAC # SB # u) = []"
            using u by (simp_all add: spec_decode_def)
          ultimately show ?thesis using ps Some
            by (auto intro!: exI [of _ "IAC # SB # u"])
        qed
      next
        case other
        with s have "parse s = Ignore s2" by simp
        moreover have "spec_state_after Idle [IAC, cmd] = Idle" "spec_decode [IAC, cmd] = []"
          using other by (auto simp: spec_decode_def)
        moreover have "s = [IAC, cmd] @ s2" using s by simp
        ultimately show ?thesis by (auto intro!: exI [of _ "[IAC, cmd]"])
      qed
    qed
  qed
qed

lemma decode_append:
  "spec_state_after Idle u = Idle \<Longrightarrow> spec_decode (u @ v) = spec_decode u @ spec_decode v"
  by (simp add: spec_decode_def decode_from_append)

text \<open>
  The reader, buffer and count after some passes: the input consumed takes the decoder
  of the specification from \<open>Idle\<close> to \<open>Idle\<close>, and its decoding is what was added to the
  buffer.
\<close>

definition advances ::
  "byte list \<Rightarrow> nat \<Rightarrow> TelnetReader \<Rightarrow> byte list \<Rightarrow> nat \<Rightarrow> TelnetReader \<Rightarrow> bool" where
  "advances p n t p' n' t' \<longleftrightarrow>
     progressing (reader t') \<and> length p' = length p \<and> n \<le> n' \<and> n' \<le> length p
     \<and> ending (reader t') = ending (reader t)
     \<and> outgoing (rd (reader t')) = outgoing (rd (reader t))
     \<and> (\<exists>u. pending (reader t) = u @ pending (reader t') \<and> spec_state_after Idle u = Idle
            \<and> take n' p' = take n p @ spec_decode u)"

lemma advances_refl: "progressing (reader t) \<Longrightarrow> n \<le> length p \<Longrightarrow> advances p n t p n t"
  by (auto simp: advances_def spec_decode_def intro!: exI [of _ "[]"])

lemma advances_trans:
  assumes "advances p n t p1 n1 t1" "advances p1 n1 t1 p2 n2 t2"
  shows "advances p n t p2 n2 t2"
proof -
  from assms(1) obtain u where u: "pending (reader t) = u @ pending (reader t1)"
    "spec_state_after Idle u = Idle" "take n1 p1 = take n p @ spec_decode u"
    by (auto simp: advances_def)
  from assms(2) obtain v where v: "pending (reader t1) = v @ pending (reader t2)"
    "spec_state_after Idle v = Idle" "take n2 p2 = take n1 p1 @ spec_decode v"
    by (auto simp: advances_def)
  have "pending (reader t) = (u @ v) @ pending (reader t2)"
    "spec_state_after Idle (u @ v) = Idle" "take n2 p2 = take n p @ spec_decode (u @ v)"
    using u v by (simp_all add: state_after_append decode_append)
  then have "\<exists>w. pending (reader t) = w @ pending (reader t2) \<and> spec_state_after Idle w = Idle
            \<and> take n2 p2 = take n p @ spec_decode w"
    by blast
  with assms show ?thesis
    by (simp add: advances_def)
qed

lemma take_emit: "n < length p \<Longrightarrow> take (Suc n) (p[n := b]) = take n p @ [b]"
  by (simp add: take_Suc_conv_app_nth)

lemma Read_iter_unit:
  assumes "progressing (reader t)" "n < length p"
  shows "case Read_iter p n t of
           None \<Rightarrow> ending (reader t) = None
         | Some (Return p' n' (Some e) t') \<Rightarrow>
             p' = p \<and> n' = n \<and> ending (reader t) = Some e \<and> progressing (reader t')
             \<and> spec_decode (pending (reader t)) = []
             \<and> outgoing (rd (reader t')) = outgoing (rd (reader t))
         | Some (Return p' n' None t') \<Rightarrow>
             advances p n t p' n' t' \<and> 0 < n' \<and> pending (reader t) \<noteq> pending (reader t')
         | Some (Again p' n' t') \<Rightarrow>
             advances p n t p' n' t' \<and> pending (reader t) \<noteq> pending (reader t')"
proof -
  let ?s = "pending (reader t)"
  note ch = Read_iter_char [OF assms(1), of p n] and pm = parse_machine [of ?s]
  show ?thesis
  proof (cases "parse ?s")
    case Incomplete
    with ch pm show ?thesis
      by (cases "ending (reader t)") (auto simp: fails_def)
  next
    case (Emit b rest)
    with ch obtain t' where t': "Read_iter p n t = Some (flush_check (p[n := b]) (n + 1) t')"
      "carries_on t rest t'" by auto
    from pm Emit obtain u where u: "u \<noteq> []" "?s = u @ rest" "spec_state_after Idle u = Idle"
      "spec_decode u = [b]" by auto
    have "advances p n t (p[n := b]) (n + 1) t'"
      using t'(2) u assms(2) by (auto simp: advances_def carries_on_def take_emit)
    moreover have "?s \<noteq> pending (reader t')"
      using t'(2) u by (simp add: carries_on_def)
    ultimately show ?thesis using t'(1)
      by (simp add: flush_check_def)
  next
    case (Skip rest)
    with ch obtain t' where t': "Read_iter p n t = Some (flush_check p n t')"
      "carries_on t rest t'" by auto
    from pm Skip obtain u where u: "u \<noteq> []" "?s = u @ rest" "spec_state_after Idle u = Idle"
      "spec_decode u = []" by auto
    have "advances p n t p n t'"
      using t'(2) u assms(2) by (auto simp: advances_def carries_on_def)
    moreover have "?s \<noteq> pending (reader t')"
      using t'(2) u by (simp add: carries_on_def)
    ultimately show ?thesis using t'(1)
      by (simp add: flush_check_def)
  next
    case (Ignore rest)
    with ch obtain t' where t': "Read_iter p n t = Some (Again p n t')"
      "carries_on t rest t'" by auto
    from pm Ignore obtain u where u: "u \<noteq> []" "?s = u @ rest" "spec_state_after Idle u = Idle"
      "spec_decode u = []" by auto
    have "advances p n t p n t'"
      using t'(2) u assms(2) by (auto simp: advances_def carries_on_def)
    moreover have "?s \<noteq> pending (reader t')"
      using t'(2) u by (simp add: carries_on_def)
    ultimately show ?thesis using t'(1) by simp
  qed
qed

lemma advances_decode:
  assumes "advances p n t p' n' t'"
  shows "take n p @ spec_decode (pending (reader t))
         = take n' p' @ spec_decode (pending (reader t'))"
proof -
  from assms obtain u where "pending (reader t) = u @ pending (reader t')"
    "spec_state_after Idle u = Idle" "take n' p' = take n p @ spec_decode u"
    by (auto simp: advances_def)
  then show ?thesis by (simp add: decode_append)
qed

lemma Read_loop_sim:
  "progressing (reader t) \<Longrightarrow> n \<le> length p \<Longrightarrow>
     (case Read_loop p n t of
        None \<Rightarrow> ending (reader t) = None
      | Some (p', n', Some e, t') \<Rightarrow>
          ending (reader t) = Some e \<and> progressing (reader t') \<and> length p' = length p
          \<and> n \<le> n' \<and> n' \<le> length p
          \<and> take n' p' = take n p @ spec_decode (pending (reader t))
          \<and> outgoing (rd (reader t')) = outgoing (rd (reader t))
      | Some (p', n', None, t') \<Rightarrow>
          advances p n t p' n' t' \<and> (0 < length p \<longrightarrow> 0 < n'))"
proof (induction p n t rule: Read_loop.induct)
  case (1 p n t)
  show ?case
  proof (cases "n < length p")
    case False
    then have "Read_loop p n t = Some (p, n, None, t)"
      by (simp add: Read_loop.simps [of p n t])
    moreover have "0 < length p \<longrightarrow> 0 < n"
      using False by (cases p) auto
    ultimately show ?thesis
      using advances_refl [OF "1.prems"] by simp
  next
    case True
    note un = Read_iter_unit [OF "1.prems"(1) True]
    show ?thesis
    proof (cases "Read_iter p n t")
      case None
      with un True show ?thesis
        by (simp add: Read_loop.simps [of p n t])
    next
      case (Some c)
      show ?thesis
      proof (cases c)
        case (Return p' n' eo t')
        with un Some True show ?thesis
          by (cases eo) (auto simp: Read_loop.simps [of p n t] spec_decode_def)
      next
        case (Again p1 n1 t1)
        with un Some have adv: "advances p n t p1 n1 t1" by simp
        then have pre: "progressing (reader t1)" "n1 \<le> length p1"
          and same: "ending (reader t1) = ending (reader t)" "length p1 = length p"
            "outgoing (rd (reader t1)) = outgoing (rd (reader t))" "n \<le> n1"
          by (auto simp: advances_def)
        note ih = "1.IH" [OF True Some Again pre]
        have rl: "Read_loop p n t = Read_loop p1 n1 t1"
          using True Some Again by (simp add: Read_loop.simps [of p n t])
        show ?thesis
        proof (cases "Read_loop p1 n1 t1")
          case None
          with ih rl same show ?thesis by simp
        next
          case (Some res)
          obtain p' n' eo t' where res: "res = (p', n', eo, t')" by (cases res)
          show ?thesis
          proof (cases eo)
            case None
            with ih Some res have "advances p1 n1 t1 p' n' t'" "0 < length p1 \<longrightarrow> 0 < n'"
              by auto
            with adv same rl Some res None advances_trans [OF adv] show ?thesis
              by auto
          next
            case (Some e)
            with ih \<open>Read_loop p1 n1 t1 = Some res\<close> res same rl advances_decode [OF adv]
            show ?thesis by auto
          qed
        qed
      qed
    qed
  qed
qed

lemma copy_loop_decode:
  "progressing (reader t) \<Longrightarrow> ending (reader t) = Some e \<Longrightarrow> b \<noteq> [] \<Longrightarrow>
     copy_loop b t = Some (spec_decode (pending (reader t)), e)"
proof (induction "length (pending (reader t))" arbitrary: b t rule: less_induct)
  case less
  note sim = Read_loop_sim [OF less.prems(1), of 0 b]
  from sim less.prems(2) obtain b' nr eo t' where rd: "Read_loop b 0 t = Some (b', nr, eo, t')"
    by (cases "Read_loop b 0 t") auto
  show ?case
  proof (cases eo)
    case (Some x)
    with sim rd less.prems show ?thesis
      by (simp add: copy_loop.simps [of b t] Read_def)
  next
    case None
    with sim rd less.prems(3) have adv: "advances b 0 t b' nr t'" and nr: "0 < nr"
      by auto
    from adv obtain u where u: "pending (reader t) = u @ pending (reader t')"
      "spec_state_after Idle u = Idle" "take nr b' = spec_decode u"
      and t': "progressing (reader t')" "ending (reader t') = ending (reader t)"
      and len: "length b' = length b"
      by (auto simp: advances_def)
    from len less.prems(3) have b': "b' \<noteq> []" by auto
    with nr have "take nr b' \<noteq> []" by simp
    with u(3) have "u \<noteq> []" by (auto simp: spec_decode_def)
    with u(1) have "length (pending (reader t')) < length (pending (reader t))" by simp
    from less.hyps [OF this t'(1) _ b'] t'(2) less.prems(2)
    have "copy_loop b' t' = Some (spec_decode (pending (reader t')), e)" by simp
    with rd None less.prems(3) u show ?thesis
      by (simp add: copy_loop.simps [of b t] Read_def decode_append)
  qed
qed

lemma decode_plain: "IAC \<notin> set s \<Longrightarrow> spec_decode_from Idle s = s"
  by (induction s) auto

lemma avail_delivered: "avail (map (\<lambda>c. (c, None)) cs @ [([], Some e)]) = concat cs"
  by (induction cs) auto

lemma ending_delivered: "ending_of (map (\<lambda>c. (c, None)) cs @ [([], Some e)]) = Some e"
  by (induction cs) auto

lemma delivered_reader:
  assumes "[] \<notin> set cs"
  shows "progressing (reader (NewTelnetReader (delivered cs e)))"
    "pending (reader (NewTelnetReader (delivered cs e))) = concat cs"
    "ending (reader (NewTelnetReader (delivered cs e))) = Some e"
  using assms
  by (auto simp: NewTelnetReader_def delivered_def progressing_def pending_def ending_def
      avail_delivered ending_delivered list_all_iff)

lemma Read_loop_flush:
  assumes "n < length p" "Read_iter p n t = Some (flush_check p' n' t')"
  shows "Read_loop p n t =
     (if Buffered (reader t') = 0 \<and> 0 < n' then Some (p', n', None, t')
      else Read_loop p' n' t')"
  using assms by (simp add: Read_loop.simps [of p n t] flush_check_def)

lemma Read_iter_shape:
  assumes "Read_iter p n t = Some c"
  shows "case c of
           Return p' n' eo t' \<Rightarrow> (eo = None \<longrightarrow> 0 < n') \<and> length p' = length p
         | Again p' n' t' \<Rightarrow> length p' = length p"
  using assms
  by (auto simp: Read_iter_def flush_check_def
      split: option.splits sum.splits prod.splits if_splits)

lemma Read_loop_nonzero:
  "Read_loop p n t = Some (p', n', None, t') \<Longrightarrow> p \<noteq> [] \<Longrightarrow> 0 < n'"
proof (induction p n t rule: Read_loop.induct)
  case (1 p n t)
  show ?case
  proof (cases "n < length p")
    case False
    with "1.prems"(1) have "n' = n"
      by (simp add: Read_loop.simps [of p n t])
    with False "1.prems"(2) show ?thesis
      by (cases p) auto
  next
    case True
    with "1.prems" obtain c where c: "Read_iter p n t = Some c"
      by (auto simp: Read_loop.simps [of p n t] split: option.splits)
    note sh = Read_iter_shape [OF c]
    show ?thesis
    proof (cases c)
      case (Return p1 n1 e1 t1)
      with True c "1.prems" sh show ?thesis
        by (auto simp: Read_loop.simps [of p n t])
    next
      case (Again p1 n1 t1)
      with True c "1.prems" have "Read_loop p1 n1 t1 = Some (p', n', None, t')"
        by (simp add: Read_loop.simps [of p n t])
      moreover from sh Again "1.prems"(2) have "p1 \<noteq> []" by auto
      ultimately show ?thesis using "1.IH" [OF True c Again] by simp
    qed
  qed
qed

text \<open>
  The bytes between \<open>IAC SB\<close> and the terminator, as the inner loop reads them: a byte
  other than \<open>IAC\<close> on its own, or an \<open>IAC\<close> together with the byte after it, which is
  not \<open>SE\<close>.
\<close>

fun sb_body :: "byte list \<Rightarrow> bool" where
  "sb_body [] = True"
| "sb_body [b] = (b \<noteq> IAC)"
| "sb_body (b # c # s) = (if b = IAC then c \<noteq> SE \<and> sb_body s else sb_body (c # s))"

lemma sb_rest_body: "sb_body body \<Longrightarrow> sb_rest (body @ IAC # SE # rest) = Some rest"
  by (induction body rule: sb_body.induct) auto

text \<open>
  An input that ends before its first unit is complete: it is empty, or it is the
  beginning of a control sequence that the input does not finish. On such an input the
  decoder of the specification, started in \<open>Idle\<close>, never comes back to \<open>Idle\<close>.
\<close>

fun never_idle :: "spec_state \<Rightarrow> byte list \<Rightarrow> bool" where
  "never_idle st [] = True"
| "never_idle st (b # s) =
     (fst (spec_step st b) \<noteq> Idle \<and> never_idle (fst (spec_step st b)) s)"

definition cut_off :: "byte list \<Rightarrow> bool" where
  "cut_off s = never_idle Idle s"

lemma never_idle_sb:
  "never_idle InSubnegotiation s \<Longrightarrow> sb_rest s = None"
  by (induction s rule: sb_rest.induct) (auto split: if_splits)

lemma cut_off_parse: "cut_off s \<Longrightarrow> parse s = Incomplete"
proof (cases s)
  case Nil
  then show ?thesis by simp
next
  case (Cons b s1)
  assume co: "cut_off s"
  with Cons have b: "b = IAC" by (auto simp: cut_off_def split: if_splits)
  show ?thesis
  proof (cases s1)
    case Nil
    with Cons b show ?thesis by simp
  next
    case (Cons cmd s2)
    with co \<open>s = b # s1\<close> b have st: "fst (spec_step SeenIAC cmd) \<noteq> Idle"
      "never_idle (fst (spec_step SeenIAC cmd)) s2"
      by (auto simp: cut_off_def)
    show ?thesis
    proof (cases "cmd = SB")
      case True
      with st have "sb_rest s2 = None" by (simp add: never_idle_sb)
      with True Cons \<open>s = b # s1\<close> b show ?thesis by simp
    next
      case False
      with st have neg: "cmd = DO \<or> cmd = DONT \<or> cmd = WILL \<or> cmd = WONT"
        by (auto split: if_splits)
      then have nl: "cmd \<noteq> IAC" by auto
      from st neg nl False have "s2 = []" by (cases s2) (auto split: if_splits)
      with neg nl Cons \<open>s = b # s1\<close> b show ?thesis by auto
    qed
  qed
qed

lemma Read_loop_cut_off:
  assumes "progressing (reader t)" "ending (reader t) = Some e" "n < length p"
    "cut_off (pending (reader t))"
  shows "\<exists>t'. Read_loop p n t = Some (p, n, Some e, t')"
proof -
  from cut_off_parse [OF assms(4)] Read_iter_char [OF assms(1), of p n]
  have "fails t p n (Read_iter p n t)" by simp
  with assms(2) obtain t' where "Read_iter p n t = Some (Return p n (Some e) t')"
    by (auto simp: fails_def)
  with assms(3) show ?thesis by (simp add: Read_loop.simps [of p n t])
qed

subsection \<open>The claims\<close>

text \<open>
  C1. An input without the byte 255 comes out as it went in. Whatever the chunks in which
  the connection delivers it and whatever the size of the buffer, the output of the Read
  calls over the whole stream, put together, is the input itself, escape bytes of ANSI
  sequences included, and the loop ends with the connection's own error.
\<close>

theorem passthrough:
  assumes "[] \<notin> set cs" "IAC \<notin> set (concat cs)" "b \<noteq> []"
  shows "copy_loop b (NewTelnetReader (delivered cs e)) = Some (concat cs, e)"
  using copy_loop_decode [OF delivered_reader(1) [OF assms(1)] delivered_reader(3) [OF assms(1)] assms(3)]
    delivered_reader(2) [OF assms(1), of e] decode_plain [OF assms(2)]
  by (simp add: spec_decode_def)

theorem passthrough_witness:
  "[] \<notin> set [[0x1B, 0x5B, 0x33], [0x31, 0x6D, 0x41 :: byte]]
   \<and> IAC \<notin> set (concat [[0x1B, 0x5B, 0x33], [0x31, 0x6D, 0x41 :: byte]])
   \<and> copy_loop [0, 0] (NewTelnetReader (delivered [[0x1B, 0x5B, 0x33], [0x31, 0x6D, 0x41]] EOF))
       = Some ([0x1B, 0x5B, 0x33, 0x31, 0x6D, 0x41], EOF)"
  using passthrough [of "[[0x1B, 0x5B, 0x33], [0x31, 0x6D, 0x41]]" "[0, 0]" EOF]
  by simp

text \<open>
  C2. Two ways of cutting the same byte sequence into chunks give the same output: the
  Read calls over the whole stream return the same bytes, put together, and end with the
  same error. In particular any cutting gives what the single chunk gives.
\<close>

theorem split_reads:
  assumes "[] \<notin> set cs" "[] \<notin> set cs'" "concat cs = concat cs'"
    "b \<noteq> []"
  shows "\<exists>out. copy_loop b (NewTelnetReader (delivered cs e)) = Some (out, e)
             \<and> copy_loop b (NewTelnetReader (delivered cs' e)) = Some (out, e)"
  using copy_loop_decode [OF delivered_reader(1) [OF assms(1)] delivered_reader(3) [OF assms(1)] assms(4), of e]
    copy_loop_decode [OF delivered_reader(1) [OF assms(2)] delivered_reader(3) [OF assms(2)] assms(4), of e]
    delivered_reader(2) [OF assms(1), of e] delivered_reader(2) [OF assms(2), of e] assms(3)
  by simp

theorem split_reads_witness:
  "[] \<notin> set [[0x48], [IAC], [WILL, 1, 0x69 :: byte]]
   \<and> [] \<notin> set [[0x48, IAC, WILL, 1, 0x69 :: byte]]
   \<and> concat [[0x48], [IAC], [WILL, 1, 0x69 :: byte]] = concat [[0x48, IAC, WILL, 1, 0x69]]
   \<and> (\<exists>out. copy_loop [0, 0, 0] (NewTelnetReader (delivered [[0x48], [IAC], [WILL, 1, 0x69]] EOF))
                = Some (out, EOF)
            \<and> copy_loop [0, 0, 0] (NewTelnetReader (delivered [[0x48, IAC, WILL, 1, 0x69]] EOF))
                = Some (out, EOF))"
  using split_reads [of "[[0x48], [IAC], [WILL, 1, 0x69]]" "[[0x48, IAC, WILL, 1, 0x69]]"
      "[0, 0, 0]" EOF]
  by simp

text \<open>
  C3. The test that ends a call early, \<open>Buffered() == 0 && n > 0\<close>, stands at the end of
  the loop body. A data byte, an escaped \<open>IAC\<close>, a negotiation and a subnegotiation reach
  it; an unrecognized command leaves the body through \<open>continue\<close> and skips it. With a
  prompt \<open>>\<close> followed by \<open>IAC GA\<close> (249) and nothing more to read, the call does not
  return the prompt: it waits in \<open>ReadByte\<close>. With \<open>IAC WILL 1\<close> in the place of
  \<open>IAC GA\<close> the same call returns the one byte at once.
\<close>

theorem unknown_command_holds_back:
  "Read [0, 0, 0, 0] (NewTelnetReader \<lparr>incoming = [([0x3E, IAC, 249], None)], outgoing = []\<rparr>)
     = None
   \<and> Read [0, 0, 0, 0] (NewTelnetReader \<lparr>incoming = [([0x3E, IAC, WILL, 1], None)], outgoing = []\<rparr>)
     = Some ([0x3E, 0, 0, 0], 1, None,
         \<lparr>reader = \<lparr>buf = [], err = None, rd = \<lparr>incoming = [], outgoing = []\<rparr>\<rparr>\<rparr>)"
  by code_simp

text \<open>
  C4, as amended. A negotiation \<open>IAC\<close>, then \<open>DO\<close>, \<open>DONT\<close>, \<open>WILL\<close> or \<open>WONT\<close>, then
  the option code, is three bytes. One pass of the loop consumes exactly these three and
  leaves what follows unread; it stores nothing in the buffer, leaves the count as it
  was, and writes nothing to the connection.
\<close>

theorem negotiation_three_bytes:
  assumes "progressing (reader t)" "pending (reader t) = IAC # cmd # opt # rest"
    "cmd = DO \<or> cmd = DONT \<or> cmd = WILL \<or> cmd = WONT"
  shows "\<exists>t'. Read_iter p n t = Some (flush_check p n t')
           \<and> progressing (reader t') \<and> pending (reader t') = rest
           \<and> outgoing (rd (reader t')) = outgoing (rd (reader t))"
proof -
  from assms(3) have "cmd \<noteq> IAC" by auto
  with assms(2,3) have "parse (pending (reader t)) = Skip rest" by simp
  with Read_iter_char [OF assms(1), of p n] show ?thesis
    by (auto simp: carries_on_def)
qed

theorem negotiation_three_bytes_witness:
  "Read_iter [0] 0 (NewTelnetReader \<lparr>incoming = [([IAC, WONT, 3, 0x42], None)], outgoing = [7]\<rparr>)
     = Some (Again [0] 0
         \<lparr>reader = \<lparr>buf = [0x42], err = None, rd = \<lparr>incoming = [], outgoing = [7]\<rparr>\<rparr>\<rparr>)"
proof -
  let ?t = "NewTelnetReader \<lparr>incoming = [([IAC, WONT, 3, 0x42], None)], outgoing = [7]\<rparr>"
  have h1: "progressing (reader ?t)"
    by (simp add: progressing_def NewTelnetReader_def)
  have h2: "pending (reader ?t) = IAC # WONT # 3 # [0x42]"
    by (simp add: pending_def NewTelnetReader_def)
  have h3: "WONT = DO \<or> WONT = DONT \<or> WONT = WILL \<or> WONT = WONT" by simp
  have c: "Read_iter [0] 0 ?t = Some (Again [0] 0
         \<lparr>reader = \<lparr>buf = [0x42], err = None, rd = \<lparr>incoming = [], outgoing = [7]\<rparr>\<rparr>\<rparr>)"
    by code_simp
  from negotiation_three_bytes [OF h1 h2 h3, of "[0]" 0] c show ?thesis by simp
qed

text \<open>
  The negotiation is not four bytes long: of the four bytes \<open>IAC DO 1 A\<close> the call hands
  the fourth to the caller as data, and the pass that strips the negotiation leaves it
  in the buffer.
\<close>

theorem negotiation_four_bytes_counterexample:
  "Read [0, 0] (NewTelnetReader \<lparr>incoming = [([IAC, DO, 1, 0x41], None)], outgoing = []\<rparr>)
     = Some ([0x41, 0], 1, None,
         \<lparr>reader = \<lparr>buf = [], err = None, rd = \<lparr>incoming = [], outgoing = []\<rparr>\<rparr>\<rparr>)
   \<and> Read_iter [0, 0] 0
         (NewTelnetReader \<lparr>incoming = [([IAC, DO, 1, 0x41], None)], outgoing = []\<rparr>)
     = Some (Again [0, 0] 0
         \<lparr>reader = \<lparr>buf = [0x41], err = None, rd = \<lparr>incoming = [], outgoing = []\<rparr>\<rparr>\<rparr>)"
  by code_simp

text \<open>
  C5. After \<open>IAC SB\<close> everything up to and including the first \<open>IAC SE\<close> is consumed and
  nothing is stored: the buffer and the count stay as they were. Inside the block an
  \<open>IAC\<close> goes together with the byte after it, and when that byte is not \<open>SE\<close> the block
  goes on. After \<open>IAC SE\<close> the loop goes on with the next byte as plain data (or the call
  returns what it has, and the next call starts there).
\<close>

theorem subnegotiation_skipped:
  assumes "progressing (reader t)"
    "pending (reader t) = IAC # SB # body @ IAC # SE # rest" "sb_body body" "n < length p"
  shows "\<exists>t'. progressing (reader t') \<and> pending (reader t') = rest
           \<and> Read_loop p n t =
               (if Buffered (reader t') = 0 \<and> 0 < n then Some (p, n, None, t')
                else Read_loop p n t')"
proof -
  from assms(2) sb_rest_body [OF assms(3), of rest]
  have "parse (pending (reader t)) = Skip rest" by simp
  with Read_iter_char [OF assms(1), of p n]
  obtain t' where t': "Read_iter p n t = Some (flush_check p n t')"
    "carries_on t rest t'" by auto
  from Read_loop_flush [OF assms(4) t'(1)] t'(2) show ?thesis
    by (auto simp: carries_on_def)
qed

theorem subnegotiation_skipped_witness:
  "sb_body [24, 0, IAC, IAC, SE, 1]
   \<and> Read [0, 0] (NewTelnetReader
        \<lparr>incoming = [([IAC, SB, 24, 0, IAC, IAC, SE, 1, IAC, SE, 0x59], None)], outgoing = []\<rparr>)
     = Some ([0x59, 0], 1, None,
         \<lparr>reader = \<lparr>buf = [], err = None, rd = \<lparr>incoming = [], outgoing = []\<rparr>\<rparr>\<rparr>)"
proof -
  let ?t = "NewTelnetReader
        \<lparr>incoming = [([IAC, SB, 24, 0, IAC, IAC, SE, 1, IAC, SE, 0x59], None)], outgoing = []\<rparr>"
  have h1: "progressing (reader ?t)"
    by (simp add: progressing_def NewTelnetReader_def)
  have h2: "pending (reader ?t) = IAC # SB # [24, 0, IAC, IAC, SE, 1] @ IAC # SE # [0x59]"
    by (simp add: pending_def NewTelnetReader_def)
  have h3: "sb_body [24, 0, IAC, IAC, SE, 1]" by simp
  have h4: "(0::nat) < length [0, 0 :: byte]" by simp
  have c: "Read [0, 0] ?t = Some ([0x59, 0], 1, None,
         \<lparr>reader = \<lparr>buf = [], err = None, rd = \<lparr>incoming = [], outgoing = []\<rparr>\<rparr>\<rparr>)"
    by code_simp
  from subnegotiation_skipped [OF h1 h2 h3 h4] h3 c show ?thesis by simp
qed

text \<open>
  C6. With \<open>IAC DO opt X\<close> at the head of the input, \<open>X\<close> a data byte (not \<open>IAC\<close>), a call
  of \<open>Read\<close> stores \<open>X\<close> as its first byte: the three bytes before it give no output,
  whatever \<open>opt\<close> is. The same holds for \<open>DONT\<close>, \<open>WILL\<close> and \<open>WONT\<close>. When nothing more is
  buffered the call returns that one byte.
\<close>

theorem negotiation_stripped:
  assumes "progressing (reader t)" "pending (reader t) = IAC # cmd # opt # X # rest"
    "cmd = DO \<or> cmd = DONT \<or> cmd = WILL \<or> cmd = WONT" "X \<noteq> IAC" "p \<noteq> []"
  shows "\<exists>t'. progressing (reader t') \<and> pending (reader t') = rest
           \<and> Read p t =
               (if Buffered (reader t') = 0 then Some (p[0 := X], 1, None, t')
                else Read_loop (p[0 := X]) 1 t')"
proof -
  from assms(3) have "cmd \<noteq> IAC" by auto
  with assms(2,3) have "parse (pending (reader t)) = Skip (X # rest)" by simp
  with Read_iter_char [OF assms(1), of p 0]
  obtain t1 where t1: "Read_iter p 0 t = Some (flush_check p 0 t1)"
    "carries_on t (X # rest) t1" by auto
  from assms(5) have len: "0 < length p" by simp
  from Read_loop_flush [OF len t1(1)] have r1: "Read_loop p 0 t = Read_loop p 0 t1"
    by simp
  from t1(2) have p1: "progressing (reader t1)" "pending (reader t1) = X # rest"
    by (simp_all add: carries_on_def)
  with assms(4) have "parse (pending (reader t1)) = Emit X rest" by simp
  with Read_iter_char [OF p1(1), of p 0]
  obtain t2 where t2: "Read_iter p 0 t1 = Some (flush_check (p[0 := X]) (0 + 1) t2)"
    "carries_on t1 rest t2" by auto
  from Read_loop_flush [OF len t2(1)] r1 t2(2) show ?thesis
    by (auto simp: Read_def carries_on_def)
qed

theorem negotiation_stripped_witness:
  "Read [0, 0] (NewTelnetReader \<lparr>incoming = [([IAC, DO], None), ([1, 0x41], None)], outgoing = []\<rparr>)
     = Some ([0x41, 0], 1, None,
         \<lparr>reader = \<lparr>buf = [], err = None, rd = \<lparr>incoming = [], outgoing = []\<rparr>\<rparr>\<rparr>)"
proof -
  let ?t = "NewTelnetReader \<lparr>incoming = [([IAC, DO], None), ([1, 0x41], None)], outgoing = []\<rparr>"
  have h1: "progressing (reader ?t)"
    by (simp add: progressing_def NewTelnetReader_def)
  have h2: "pending (reader ?t) = IAC # DO # 1 # 0x41 # []"
    by (simp add: pending_def NewTelnetReader_def)
  have h3: "DO = DO \<or> DO = DONT \<or> DO = WILL \<or> DO = WONT" by simp
  have h4: "(0x41 :: byte) \<noteq> IAC" by simp
  have h5: "[0, 0 :: byte] \<noteq> []" by simp
  have c: "Read [0, 0] ?t = Some ([0x41, 0], 1, None,
         \<lparr>reader = \<lparr>buf = [], err = None, rd = \<lparr>incoming = [], outgoing = []\<rparr>\<rparr>\<rparr>)"
    by code_simp
  from negotiation_stripped [OF h1 h2 h3 h4 h5] c show ?thesis by simp
qed

text \<open>
  C7. \<open>IAC IAC\<close> at the head of the input, at the top of the loop, gives exactly one
  output byte, 255, and the loop goes on at its top with the bytes that follow.
\<close>

theorem escaped_IAC:
  assumes "progressing (reader t)" "pending (reader t) = IAC # IAC # rest" "n < length p"
  shows "\<exists>t'. progressing (reader t') \<and> pending (reader t') = rest
           \<and> Read_loop p n t =
               (if Buffered (reader t') = 0 then Some (p[n := IAC], n + 1, None, t')
                else Read_loop (p[n := IAC]) (n + 1) t')"
proof -
  from Read_iter_char [OF assms(1), of p n] assms(2)
  obtain t' where t': "Read_iter p n t = Some (flush_check (p[n := IAC]) (n + 1) t')"
    "carries_on t rest t'" by auto
  from Read_loop_flush [OF assms(3) t'(1)] t'(2) show ?thesis
    by (auto simp: carries_on_def)
qed

theorem escaped_IAC_witness:
  "progressing (reader (NewTelnetReader \<lparr>incoming = [([IAC, IAC], None)], outgoing = []\<rparr>))
   \<and> pending (reader (NewTelnetReader \<lparr>incoming = [([IAC, IAC], None)], outgoing = []\<rparr>))
       = [IAC, IAC]
   \<and> Read_loop [0, 0] 0 (NewTelnetReader \<lparr>incoming = [([IAC, IAC], None)], outgoing = []\<rparr>)
       = Some ([IAC, 0], 1, None,
           \<lparr>reader = \<lparr>buf = [], err = None, rd = \<lparr>incoming = [], outgoing = []\<rparr>\<rparr>\<rparr>)"
proof -
  let ?t = "NewTelnetReader \<lparr>incoming = [([IAC, IAC], None)], outgoing = []\<rparr>"
  have h1: "progressing (reader ?t)"
    by (simp add: progressing_def NewTelnetReader_def)
  have h2: "pending (reader ?t) = IAC # IAC # []"
    by (simp add: pending_def NewTelnetReader_def)
  have h3: "(0::nat) < length [0::byte, 0]" by simp
  have c: "Read_loop [0, 0] 0 ?t = Some ([IAC, 0], 1, None,
           \<lparr>reader = \<lparr>buf = [], err = None, rd = \<lparr>incoming = [], outgoing = []\<rparr>\<rparr>\<rparr>)"
    by code_simp
  from escaped_IAC [OF h1 h2 h3] h1 h2 c show ?thesis by simp
qed

text \<open>
  C8, as amended. With a buffer that has room for at least one byte, a call that returns
  no error returns at least one byte: zero bytes come only with an error.
\<close>

theorem no_bytes_only_with_error:
  assumes "p \<noteq> []" "Read p t = Some (p', n', None, t')"
  shows "0 < n'"
  using assms Read_loop_nonzero [of p 0 t p' n' t'] by (simp add: Read_def)

theorem no_bytes_only_with_error_witness:
  "Read [0, 0] (NewTelnetReader \<lparr>incoming = [([0x68, 0x69, 0x21], None)], outgoing = []\<rparr>)
     = Some ([0x68, 0x69], 2, None,
         \<lparr>reader = \<lparr>buf = [0x21], err = None, rd = \<lparr>incoming = [], outgoing = []\<rparr>\<rparr>\<rparr>)
   \<and> (0::nat) < 2"
proof -
  let ?t = "NewTelnetReader \<lparr>incoming = [([0x68, 0x69, 0x21], None)], outgoing = []\<rparr>"
  have h1: "[0, 0 :: byte] \<noteq> []" by simp
  have h2: "Read [0, 0] ?t = Some ([0x68, 0x69], 2, None,
         \<lparr>reader = \<lparr>buf = [0x21], err = None, rd = \<lparr>incoming = [], outgoing = []\<rparr>\<rparr>\<rparr>)"
    by code_simp
  from no_bytes_only_with_error [OF h1 h2] h2 show ?thesis by simp
qed

text \<open>
  With an empty buffer the loop is not entered: the call returns zero bytes and no error,
  though a byte is waiting on the connection.
\<close>

theorem empty_buffer_counterexample:
  "Read [] (NewTelnetReader \<lparr>incoming = [([0x41], None)], outgoing = []\<rparr>)
     = Some ([], 0, None, NewTelnetReader \<lparr>incoming = [([0x41], None)], outgoing = []\<rparr>)"
  by code_simp

text \<open>
  C9. When the input of the reader ends with the error \<open>e\<close>, a call of \<open>Read\<close> returns.
  If it reports an error, the error is \<open>e\<close> itself and the bytes it hands over are the
  decoding of all the input that was left, in which a control sequence cut off by the
  error gives nothing. If it reports no error, it hands over at least one byte, it has
  stopped between two units of the input, and the error is still to come: the reader it
  leaves ends with \<open>e\<close>. When the decoding of the input is empty the call reports \<open>e\<close>
  with zero bytes. And wherever the loop stands, with whatever count \<open>n\<close> of bytes stored
  so far in the call: when the input left is empty or stops inside a control sequence,
  the loop returns \<open>e\<close> together with exactly those \<open>n\<close> bytes, the buffer unchanged.
\<close>

theorem read_failure_propagated:
  assumes "progressing (reader t)" "ending (reader t) = Some e" "p \<noteq> []"
  shows "(\<exists>p' n' eo t'. Read p t = Some (p', n', eo, t')
            \<and> (\<forall>x. eo = Some x \<longrightarrow> x = e \<and> take n' p' = spec_decode (pending (reader t)))
            \<and> (eo = None \<longrightarrow>
                  0 < n' \<and> progressing (reader t') \<and> ending (reader t') = Some e
                  \<and> (\<exists>u. pending (reader t) = u @ pending (reader t')
                         \<and> spec_state_after Idle u = Idle \<and> take n' p' = spec_decode u))
            \<and> (spec_decode (pending (reader t)) = [] \<longrightarrow> eo = Some e \<and> n' = 0))
         \<and> (\<forall>n < length p. cut_off (pending (reader t)) \<longrightarrow>
               (\<exists>t'. Read_loop p n t = Some (p, n, Some e, t')))"
proof
  note sim = Read_loop_sim [OF assms(1), of 0 p]
  from sim assms(2) obtain p' n' eo t' where rd: "Read_loop p 0 t = Some (p', n', eo, t')"
    by (cases "Read_loop p 0 t") auto
  show "\<exists>p' n' eo t'. Read p t = Some (p', n', eo, t')
            \<and> (\<forall>x. eo = Some x \<longrightarrow> x = e \<and> take n' p' = spec_decode (pending (reader t)))
            \<and> (eo = None \<longrightarrow>
                  0 < n' \<and> progressing (reader t') \<and> ending (reader t') = Some e
                  \<and> (\<exists>u. pending (reader t) = u @ pending (reader t')
                         \<and> spec_state_after Idle u = Idle \<and> take n' p' = spec_decode u))
            \<and> (spec_decode (pending (reader t)) = [] \<longrightarrow> eo = Some e \<and> n' = 0)"
  proof (cases eo)
    case (Some x)
    with sim rd assms(2) have "x = e" "take n' p' = spec_decode (pending (reader t))"
      "length p' = length p"
      by auto
    moreover from this(2,3) assms(3) have "spec_decode (pending (reader t)) = [] \<longrightarrow> n' = 0"
      by (cases p') auto
    ultimately show ?thesis using rd Some by (simp add: Read_def)
  next
    case None
    with sim rd assms(3) have adv: "advances p 0 t p' n' t'" and n': "0 < n'" by auto
    have eq: "spec_decode (pending (reader t)) = take n' p' @ spec_decode (pending (reader t'))"
      using advances_decode [OF adv] by simp
    from adv assms(3) have "p' \<noteq> []" by (auto simp: advances_def)
    with n' have "take n' p' \<noteq> []" by simp
    with eq have ne: "spec_decode (pending (reader t)) \<noteq> []" by simp
    from adv assms(2) have "progressing (reader t')" "ending (reader t') = Some e"
      "\<exists>u. pending (reader t) = u @ pending (reader t')
           \<and> spec_state_after Idle u = Idle \<and> take n' p' = spec_decode u"
      by (auto simp: advances_def)
    with rd None n' ne show ?thesis by (simp add: Read_def)
  qed
next
  show "\<forall>n < length p. cut_off (pending (reader t)) \<longrightarrow>
               (\<exists>t'. Read_loop p n t = Some (p, n, Some e, t'))"
    using Read_loop_cut_off [OF assms(1,2)] by blast
qed

theorem read_failure_propagated_witness:
  "Read [0x41, 0, 0] (NewTelnetReader
       \<lparr>incoming = [([IAC], None), ([WILL], None), ([], Some EOF)], outgoing = []\<rparr>)
     = Some ([0x41, 0, 0], 0, Some EOF,
         \<lparr>reader = \<lparr>buf = [], err = None, rd = \<lparr>incoming = [], outgoing = []\<rparr>\<rparr>\<rparr>)
   \<and> cut_off [IAC, WILL]
   \<and> Read_loop [0x41, 0, 0] 1 (NewTelnetReader
       \<lparr>incoming = [([IAC], None), ([WILL], None), ([], Some EOF)], outgoing = []\<rparr>)
     = Some ([0x41, 0, 0], 1, Some EOF,
         \<lparr>reader = \<lparr>buf = [], err = None, rd = \<lparr>incoming = [], outgoing = []\<rparr>\<rparr>\<rparr>)
   \<and> spec_decode [IAC, WILL] = []"
proof -
  let ?t = "NewTelnetReader
       \<lparr>incoming = [([IAC], None), ([WILL], None), ([], Some EOF)], outgoing = []\<rparr>"
  have h1: "progressing (reader ?t)"
    by (simp add: progressing_def NewTelnetReader_def)
  have h2: "ending (reader ?t) = Some EOF"
    by (simp add: ending_def NewTelnetReader_def)
  have h3: "[0x41, 0, 0 :: byte] \<noteq> []" by simp
  have c: "Read [0x41, 0, 0] ?t = Some ([0x41, 0, 0], 0, Some EOF,
         \<lparr>reader = \<lparr>buf = [], err = None, rd = \<lparr>incoming = [], outgoing = []\<rparr>\<rparr>\<rparr>)"
    by code_simp
  have c': "Read_loop [0x41, 0, 0] 1 ?t = Some ([0x41, 0, 0], 1, Some EOF,
         \<lparr>reader = \<lparr>buf = [], err = None, rd = \<lparr>incoming = [], outgoing = []\<rparr>\<rparr>\<rparr>)"
    by code_simp
  have d: "spec_decode [IAC, WILL] = []" "cut_off [IAC, WILL]"
    by (simp_all add: spec_decode_def cut_off_def)
  from read_failure_propagated [OF h1 h2 h3] c c' d show ?thesis by simp
qed

text \<open>
  C10. A call of \<open>Read\<close> that returns no error has consumed a piece of the input that
  takes the decoder of the specification from \<open>Idle\<close> back to \<open>Idle\<close>: no control
  sequence is in progress when the call returns. (\<open>TelnetReader\<close> has the one field
  \<open>reader\<close>; there is nowhere to keep a decoder state between calls.)
\<close>

theorem no_sequence_in_progress:
  assumes "progressing (reader t)" "Read p t = Some (p', n', None, t')"
  shows "\<exists>u. pending (reader t) = u @ pending (reader t') \<and> spec_state_after Idle u = Idle"
  using Read_loop_sim [OF assms(1), of 0 p] assms(2)
  by (auto simp: Read_def advances_def)

theorem no_sequence_in_progress_witness:
  "Read [0, 0, 0] (NewTelnetReader
       \<lparr>incoming = [([0x41, IAC], None), ([DO, 1, 0x42], None), ([IAC], None)], outgoing = []\<rparr>)
     = Some ([0x41, 0x42, 0], 2, None,
         \<lparr>reader = \<lparr>buf = [], err = None, rd = \<lparr>incoming = [([IAC], None)], outgoing = []\<rparr>\<rparr>\<rparr>)
   \<and> spec_state_after Idle [0x41, IAC, DO, 1, 0x42] = Idle"
proof -
  let ?t = "NewTelnetReader
       \<lparr>incoming = [([0x41, IAC], None), ([DO, 1, 0x42], None), ([IAC], None)], outgoing = []\<rparr>"
  have h1: "progressing (reader ?t)"
    by (simp add: progressing_def NewTelnetReader_def)
  have c: "Read [0, 0, 0] ?t = Some ([0x41, 0x42, 0], 2, None,
         \<lparr>reader = \<lparr>buf = [], err = None, rd = \<lparr>incoming = [([IAC], None)], outgoing = []\<rparr>\<rparr>\<rparr>)"
    by code_simp
  have d: "spec_state_after Idle [0x41, IAC, DO, 1, 0x42] = Idle" by simp
  from no_sequence_in_progress [OF h1 c] c d show ?thesis by simp
qed

end
